theory Spec2Isabelle
  imports Main "HOL-Library.Multiset" "HOL-Library.AList" "HOL-Library.Char_ord"
    "HOL-Library.List_Lexorder"
begin

section \<open>Event sources (csr\_eventmanager.py, classes \_EventSource and its three variants)\<close>

text \<open>
  The three subclasses of \<^verbatim>\<open>_EventSource\<close> differ only in the combinational and
  clocked statements their constructors emit, so an instance is a record holding the
  fields \<^verbatim>\<open>__init__\<close> stores and a tag for the subclass.
\<close>

datatype variant = Pulse | Process | Level

record event_source =
  duid :: int
  name :: "string option"
  description :: "string option"
  variant :: variant

text \<open>
  \<^verbatim>\<open>get_obj_var_name(name)\<close> (migen's tracer) returns the override when it is truthy and
  otherwise the variable name it can read off the caller's frame, which may be \<^verbatim>\<open>None\<close>;
  the traced name is a parameter here.
\<close>

definition get_obj_var_name :: "string option \<Rightarrow> string option \<Rightarrow> string option" where
  "get_obj_var_name override traced =
     (case override of
        None \<Rightarrow> traced
      | Some n \<Rightarrow> if n \<noteq> [] then Some n else traced)"

text \<open>
  \<^verbatim>\<open>_EventSource.__init__\<close>: \<^verbatim>\<open>DUID.__init__\<close> draws the id from a class-wide counter,
  which the signals created next draw from as well; the id drawn is a parameter here.
\<close>

definition EventSource_init ::
  "variant \<Rightarrow> string option \<Rightarrow> string option \<Rightarrow> string option \<Rightarrow> int \<Rightarrow> event_source" where
  "EventSource_init v nm descr traced uid =
     \<lparr>duid = uid, name = get_obj_var_name nm traced, description = descr, variant = v\<rparr>"

subsection \<open>Signals of one source\<close>

text \<open>
  \<^verbatim>\<open>pending\<close> and \<^verbatim>\<open>old_trigger\<close> are the only signals assigned in \<^verbatim>\<open>self.sync\<close>; they
  are the registers of a source. \<^verbatim>\<open>trigger\<close> and \<^verbatim>\<open>clear\<close> are inputs.
\<close>

record source_regs =
  pending_r :: bool
  old_trigger :: bool

text \<open>\<^verbatim>\<open>self.comb += self.status.eq(...)\<close>, per subclass.\<close>

fun status_of :: "variant \<Rightarrow> bool \<Rightarrow> bool" where
  "status_of Pulse trig = False"
| "status_of Process trig = trig"
| "status_of Level trig = trig"

text \<open>
  The value of the \<^verbatim>\<open>pending\<close> signal: driven combinationally from \<^verbatim>\<open>trigger\<close> for
  a Level source, the register otherwise.
\<close>

fun pending_of :: "variant \<Rightarrow> source_regs \<Rightarrow> bool \<Rightarrow> bool" where
  "pending_of Pulse r trig = pending_r r"
| "pending_of Process r trig = pending_r r"
| "pending_of Level r trig = trig"

text \<open>
  One clock edge. The statements of \<^verbatim>\<open>self.sync\<close> run in the order listed; every
  condition reads the values of the current cycle (\<open>r\<close>, \<open>trig\<close>, \<open>clr\<close>), and a later
  assignment to the same register overrides an earlier one.
\<close>

fun sync :: "variant \<Rightarrow> source_regs \<Rightarrow> bool \<Rightarrow> bool \<Rightarrow> source_regs" where
  "sync Pulse r trig clr =
     (let r1 = (if clr then r\<lparr>pending_r := False\<rparr> else r);
          r2 = (if trig then r1\<lparr>pending_r := True\<rparr> else r1)
      in r2)"
| "sync Process r trig clr =
     (let r1 = (if clr then r\<lparr>pending_r := False\<rparr> else r);
          r2 = r1\<lparr>old_trigger := trig\<rparr>;
          r3 = (if \<not> trig \<and> old_trigger r then r2\<lparr>pending_r := True\<rparr> else r2)
      in r3)"
| "sync Level r trig clr = r"

text \<open>Several clock edges, one pair (trigger, clear) of inputs per cycle.\<close>

fun run :: "variant \<Rightarrow> source_regs \<Rightarrow> (bool \<times> bool) list \<Rightarrow> source_regs" where
  "run v r [] = r"
| "run v r ((trig, clr) # ins) = run v (sync v r trig clr) ins"

section \<open>Registers\<close>

text \<open>
  Modelled from the spec: the register primitives \<^verbatim>\<open>CSRField\<close>, \<^verbatim>\<open>CSRStatus\<close> and
  \<^verbatim>\<open>CSRStorage\<close> of \<^verbatim>\<open>litex.soc.interconnect.csr\<close> are not part of the sources at hand.
  The spec describes them as named, sized, offsettable fields packed into a register.
  A field keeps the arguments \<^verbatim>\<open>do_finalize\<close> passes; \<^verbatim>\<open>size\<close> defaults to 1 and
  \<^verbatim>\<open>offset\<close> to \<^verbatim>\<open>None\<close>.
\<close>

record csr_field =
  f_name :: string
  f_size :: nat
  f_offset :: "nat option"
  f_description :: string

datatype csr_kind = Status | Storage

record csr =
  c_kind :: csr_kind
  c_size :: nat
  c_description :: string
  c_fields :: "csr_field list"

definition CSRStatus :: "nat \<Rightarrow> string \<Rightarrow> csr_field list \<Rightarrow> csr" where
  "CSRStatus n descr flds =
     \<lparr>c_kind = Status, c_size = n, c_description = descr, c_fields = flds\<rparr>"

definition CSRStorage :: "nat \<Rightarrow> string \<Rightarrow> csr_field list \<Rightarrow> csr" where
  "CSRStorage n descr flds =
     \<lparr>c_kind = Storage, c_size = n, c_description = descr, c_fields = flds\<rparr>"

text \<open>
  Modelled from the spec: packing. A field with an explicit offset sits there; a field
  without one follows the field before it.
\<close>

fun field_offsets :: "nat \<Rightarrow> csr_field list \<Rightarrow> nat list" where
  "field_offsets off [] = []"
| "field_offsets off (f # fs) =
     (let k = (case f_offset f of None \<Rightarrow> off | Some j \<Rightarrow> j)
      in k # field_offsets (k + f_size f) fs)"

text \<open>
  Modelled from the spec: the fields of a register are reached by name
  (\<^verbatim>\<open>getattr(self.status.fields, source.name)\<close>); of two fields with one name the later
  one is found. The bit of a register that a named field occupies:
\<close>

definition field_bit :: "csr \<Rightarrow> string \<Rightarrow> nat option" where
  "field_bit c nm =
     map_of (rev (zip (map f_name (c_fields c)) (field_offsets 0 (c_fields c)))) nm"

text \<open>The field whose bit range covers bit \<open>i\<close> of the register.\<close>

definition field_at :: "csr \<Rightarrow> nat \<Rightarrow> csr_field option" where
  "field_at c i =
     map_option fst
       (find (\<lambda>(f, off). off \<le> i \<and> i < off + f_size f)
          (zip (c_fields c) (field_offsets 0 (c_fields c))))"

section \<open>The event manager\<close>

datatype error = FinalizeError | UnboundLocalError | TypeError | AttributeError

text \<open>
  The values an attribute of the manager holds: an event source, a register, or a plain
  signal (\<^verbatim>\<open>self.irq\<close>).
\<close>

datatype attr = Source event_source | Register csr | Signal

text \<open>
  The expression \<^verbatim>\<open>reduce(or_, irqs)\<close> builds at elaboration time, over the terms
  \<^verbatim>\<open>self.pending.status[i] & self.enable.storage[i]\<close>.
\<close>

datatype expr = PendingAndEnable nat | Or expr expr

text \<open>
  The state of an \<^verbatim>\<open>EventManager\<close> object: its attribute dictionary in insertion order,
  the submodules list and the \<^verbatim>\<open>finalized\<close> flag of migen's \<^verbatim>\<open>Module\<close>, and the logic
  added to \<^verbatim>\<open>self.comb\<close>: one entry of \<open>wired\<close> stands for the three statements that one
  iteration of the loop at the end of \<^verbatim>\<open>do_finalize\<close> adds for a field name and a
  source, and \<open>irq_drv\<close> is the expression assigned to \<^verbatim>\<open>self.irq\<close>.
  Sources are assumed to be stored under attribute names of their own: a name that
  shadows \<^verbatim>\<open>irq\<close> or an internal attribute of \<^verbatim>\<open>Module\<close> (\<^verbatim>\<open>finalized\<close>,
  \<^verbatim>\<open>submodules\<close>) is outside this model.
\<close>

record event_manager =
  attrs :: "(string \<times> attr) list"
  submodules :: "event_source list"
  finalized :: bool
  wired :: "(string \<times> event_source) list"
  irq_drv :: "expr option"

text \<open>\<^verbatim>\<open>EventManager.__init__\<close>: \<^verbatim>\<open>self.irq = Signal()\<close>.\<close>

definition EventManager_init :: event_manager where
  "EventManager_init =
     \<lparr>attrs = [(''irq'', Signal)], submodules = [], finalized = False, wired = [],
      irq_drv = None\<rparr>"

text \<open>
  \<^verbatim>\<open>EventManager.__setattr__\<close>. The attribute is stored first; the check of the
  \<^verbatim>\<open>finalized\<close> flag comes after. A raised exception is \<open>Inl\<close>, with the state the object
  is left in.
\<close>

definition setattr ::
  "event_manager \<Rightarrow> string \<Rightarrow> attr \<Rightarrow> (error \<times> event_manager) + event_manager" where
  "setattr m nm v =
     (let m1 = m\<lparr>attrs := AList.update nm v (attrs m)\<rparr>
      in case v of
           Source s \<Rightarrow>
             if finalized m1 then Inl (FinalizeError, m1)
             else Inr (m1\<lparr>submodules := submodules m1 @ [s]\<rparr>)
         | _ \<Rightarrow> Inr m1)"

text \<open>
  \<^verbatim>\<open>xdir(self, True)\<close> (migen): the attributes in the order of \<^verbatim>\<open>dir\<close>, which is sorted by
  name, leaving out the names that start or end with two underscores.
\<close>

definition xdir :: "event_manager \<Rightarrow> (string \<times> attr) list" where
  "xdir m =
     filter (\<lambda>(k, v). take 2 k \<noteq> ''__'' \<and> drop (length k - 2) k \<noteq> ''__'')
       (sort_key fst (attrs m))"

fun as_source :: "attr \<Rightarrow> event_source option" where
  "as_source (Source s) = Some s"
| "as_source _ = None"

text \<open>\<^verbatim>\<open>sources_u = [v for k, v in xdir(self, True) if isinstance(v, _EventSource)]\<close>\<close>

definition sources_u :: "event_manager \<Rightarrow> event_source list" where
  "sources_u m = List.map_filter as_source (map snd (xdir m))"

subsection \<open>Texts\<close>

text \<open>Python's \<^verbatim>\<open>str\<close> on a natural number and on an optional name.\<close>

fun str_nat :: "nat \<Rightarrow> string" where
  "str_nat n =
     (if n < 10 then [''0123456789'' ! n]
      else str_nat (n div 10) @ [''0123456789'' ! (n mod 10)])"

definition str_name :: "string option \<Rightarrow> string" where
  "str_name nm = (case nm of None \<Rightarrow> ''None'' | Some k \<Rightarrow> k)"

text \<open>
  The local function \<^verbatim>\<open>source_description\<close>. Every source is of one of the three
  subclasses, so the final \<^verbatim>\<open>else\<close> of the source is not reached.
\<close>

definition source_description :: "event_source \<Rightarrow> string" where
  "source_description src =
     (let base_text =
        (case name src of
           Some nm \<Rightarrow> ''`1` if a `'' @ nm @ ''` event occurred. ''
         | None \<Rightarrow> ''`1` if a this particular event occurred. '')
      in case description src of
           Some d \<Rightarrow> d
         | None \<Rightarrow>
             (case variant src of
                Level \<Rightarrow>
                  base_text @ ''This Event is **level triggered** when the signal is **high**.''
              | Pulse \<Rightarrow> base_text @ ''This Event is triggered on a **rising** edge.''
              | Process \<Rightarrow> base_text @ ''This Event is triggered on a **falling** edge.''))"

subsection \<open>The three annotation loops\<close>

definition status_desc :: "event_source \<Rightarrow> string" where
  "status_desc source =
     (case description source of
        None \<Rightarrow>
          ''This register contains the current raw level of the '' @ str_name (name source)
          @ '' event trigger.  Writes to this register have no effect.''
      | Some d \<Rightarrow> d)"

definition status_field :: "nat \<Rightarrow> event_source \<Rightarrow> csr_field" where
  "status_field i source =
     (case name source of
        Some nm \<Rightarrow>
          \<lparr>f_name = nm, f_size = 1, f_offset = None,
           f_description = ''Level of the `'' @ nm @ ''` event''\<rparr>
      | None \<Rightarrow>
          \<lparr>f_name = ''event'' @ str_nat i, f_size = 1, f_offset = None,
           f_description = ''Level of the `event'' @ str_nat i @ ''` event''\<rparr>)"

definition pending_desc :: "event_source \<Rightarrow> string" where
  "pending_desc source =
     (case description source of
        None \<Rightarrow>
          ''When a  '' @ str_name (name source)
          @ '' event occurs, the corresponding bit will be set in this register.  To clear the Event, set the corresponding bit in this register.''
      | Some d \<Rightarrow> d)"

definition pending_field :: "nat \<Rightarrow> event_source \<Rightarrow> csr_field" where
  "pending_field i source =
     (case name source of
        Some nm \<Rightarrow>
          \<lparr>f_name = nm, f_size = 1, f_offset = None,
           f_description = source_description source\<rparr>
      | None \<Rightarrow>
          \<lparr>f_name = ''event'' @ str_nat i, f_size = 1, f_offset = None,
           f_description = source_description source\<rparr>)"

definition enable_desc :: "event_source \<Rightarrow> string" where
  "enable_desc source =
     (case description source of
        None \<Rightarrow>
          ''This register enables the corresponding '' @ str_name (name source)
          @ '' events.  Write a `0` to this register to disable individual events.''
      | Some d \<Rightarrow> d)"

definition enable_field :: "nat \<Rightarrow> event_source \<Rightarrow> csr_field" where
  "enable_field i source =
     (case name source of
        Some nm \<Rightarrow>
          \<lparr>f_name = nm, f_size = 1, f_offset = Some i,
           f_description = ''Write a `1` to enable the `'' @ nm @ ''` Event''\<rparr>
      | None \<Rightarrow>
          \<lparr>f_name = ''event'' @ str_nat i, f_size = 1, f_offset = Some i,
           f_description = ''Write a `1` to enable the `'' @ str_nat i @ ''` Event''\<rparr>)"

text \<open>
  One annotation loop, \<^verbatim>\<open>for i, source in enumerate(sources)\<close>: each iteration rebinds
  \<^verbatim>\<open>desc\<close> and appends a field. Before the first iteration \<^verbatim>\<open>desc\<close> is unbound (\<open>None\<close>).
\<close>

fun annotate ::
  "(event_source \<Rightarrow> string) \<Rightarrow> (nat \<Rightarrow> event_source \<Rightarrow> csr_field) \<Rightarrow>
   (nat \<times> event_source) list \<Rightarrow> string option \<times> csr_field list \<Rightarrow>
   string option \<times> csr_field list" where
  "annotate d f [] acc = acc"
| "annotate d f ((i, source) # rest) (desc, flds) =
     annotate d f rest (Some (d source), flds @ [f i source])"

text \<open>
  The register built after a loop. Reading \<^verbatim>\<open>desc\<close> when the loop body never ran raises
  \<^verbatim>\<open>UnboundLocalError\<close>.
\<close>

definition make_csr ::
  "(nat \<Rightarrow> string \<Rightarrow> csr_field list \<Rightarrow> csr) \<Rightarrow> nat \<Rightarrow> string option \<times> csr_field list \<Rightarrow>
   error + csr" where
  "make_csr ctor n loop =
     (case fst loop of
        None \<Rightarrow> Inl UnboundLocalError
      | Some desc \<Rightarrow> Inr (ctor n desc (snd loop)))"

subsection \<open>The wiring loop and the interrupt line\<close>

text \<open>
  \<^verbatim>\<open>getattr(self.status.fields, source.name)\<close>: the attribute name must be a string, and
  the field must exist. The result identifies the field by its name.
\<close>

definition getattr_field :: "csr \<Rightarrow> string option \<Rightarrow> error + string" where
  "getattr_field c nm =
     (case nm of
        None \<Rightarrow> Inl TypeError
      | Some k \<Rightarrow> if k \<in> set (map f_name (c_fields c)) then Inr k else Inl AttributeError)"

text \<open>
  The loop at the end of \<^verbatim>\<open>do_finalize\<close>. The three statements of an iteration are built
  before any is added to \<^verbatim>\<open>self.comb\<close>, so a failing iteration adds nothing, and the
  statements of the iterations before it stay.
\<close>

fun wire ::
  "csr \<Rightarrow> csr \<Rightarrow> (nat \<times> event_source) list \<Rightarrow> (string \<times> event_source) list \<Rightarrow>
   (error \<times> (string \<times> event_source) list) + (string \<times> event_source) list" where
  "wire st pe [] acc = Inr acc"
| "wire st pe ((i, source) # rest) acc =
     (case getattr_field st (name source) of
        Inl e \<Rightarrow> Inl (e, acc)
      | Inr sf \<Rightarrow>
          (case getattr_field pe (name source) of
             Inl e \<Rightarrow> Inl (e, acc)
           | Inr pf \<Rightarrow> wire st pe rest (acc @ [(pf, source)])))"

text \<open>\<^verbatim>\<open>functools.reduce\<close> without an initial value: it raises on an empty sequence.\<close>

fun reduce :: "('a \<Rightarrow> 'a \<Rightarrow> 'a) \<Rightarrow> 'a list \<Rightarrow> error + 'a" where
  "reduce f [] = Inl TypeError"
| "reduce f (x # xs) = Inr (foldl f x xs)"

subsection \<open>do\_finalize\<close>

definition do_finalize :: "event_manager \<Rightarrow> (error \<times> event_manager) + event_manager" where
  "do_finalize m =
     (let sources = sort_key duid (sources_u m);
          n = length sources
      in
      case make_csr CSRStatus n
             (annotate status_desc status_field (enumerate 0 sources) (None, [])) of
        Inl e \<Rightarrow> Inl (e, m)
      | Inr st \<Rightarrow>
      (case setattr m ''status'' (Register st) of
        Inl r \<Rightarrow> Inl r
      | Inr m1 \<Rightarrow>
      (case make_csr CSRStatus n
              (annotate pending_desc pending_field (enumerate 0 sources) (None, [])) of
        Inl e \<Rightarrow> Inl (e, m1)
      | Inr pe \<Rightarrow>
      (case setattr m1 ''pending'' (Register pe) of
        Inl r \<Rightarrow> Inl r
      | Inr m2 \<Rightarrow>
      (case make_csr CSRStorage n
              (annotate enable_desc enable_field (enumerate 0 sources) (None, [])) of
        Inl e \<Rightarrow> Inl (e, m2)
      | Inr en \<Rightarrow>
      (case setattr m2 ''enable'' (Register en) of
        Inl r \<Rightarrow> Inl r
      | Inr m3 \<Rightarrow>
      (case wire st pe (enumerate 0 sources) [] of
        Inl (e, w) \<Rightarrow> Inl (e, m3\<lparr>wired := wired m3 @ w\<rparr>)
      | Inr w \<Rightarrow>
      (let m4 = m3\<lparr>wired := wired m3 @ w\<rparr>
       in case reduce Or (map PendingAndEnable [0..<n]) of
            Inl e \<Rightarrow> Inl (e, m4)
          | Inr ex \<Rightarrow> Inr (m4\<lparr>irq_drv := Some ex\<rparr>)))))))))"

text \<open>
  migen's \<^verbatim>\<open>Module.finalize\<close>, the caller of \<^verbatim>\<open>do_finalize\<close>: it sets the flag that
  \<^verbatim>\<open>__setattr__\<close> reads and runs \<^verbatim>\<open>do_finalize\<close>, once; on a finalized module it does
  nothing.
\<close>

definition finalize :: "event_manager \<Rightarrow> (error \<times> event_manager) + event_manager" where
  "finalize m =
     (if \<not> finalized m then do_finalize (m\<lparr>finalized := True\<rparr>) else Inr m)"

section \<open>The logic of a finalized manager\<close>

text \<open>
  The signals the generated logic reads in one cycle: trigger and registers of every
  source instance (by its id), the write strobe \<^verbatim>\<open>re\<close> of the pending register and the
  data written with it, and the stored bits of the enable register.
\<close>

record signals =
  trigger :: "int \<Rightarrow> bool"
  regs :: "int \<Rightarrow> source_regs"
  pending_re :: bool
  pending_dat_w :: "nat \<Rightarrow> bool"
  enable_storage :: "nat \<Rightarrow> bool"

definition src_status :: "signals \<Rightarrow> event_source \<Rightarrow> bool" where
  "src_status env s = status_of (variant s) (trigger env (duid s))"

definition src_pending :: "signals \<Rightarrow> event_source \<Rightarrow> bool" where
  "src_pending env s = pending_of (variant s) (regs env (duid s)) (trigger env (duid s))"

text \<open>
  \<^verbatim>\<open>getattr(self.status.fields, source.name).eq(source.status)\<close> and
  \<^verbatim>\<open>getattr(self.pending.fields, source.name).eq(source.pending)\<close>: the value of a field
  is that of the source wired to it, the last statement winning; an undriven field is 0.
\<close>

definition status_field_val :: "event_manager \<Rightarrow> signals \<Rightarrow> string \<Rightarrow> bool" where
  "status_field_val m env nm =
     (case map_of (rev (wired m)) nm of None \<Rightarrow> False | Some s \<Rightarrow> src_status env s)"

definition pending_field_val :: "event_manager \<Rightarrow> signals \<Rightarrow> string \<Rightarrow> bool" where
  "pending_field_val m env nm =
     (case map_of (rev (wired m)) nm of None \<Rightarrow> False | Some s \<Rightarrow> src_pending env s)"

text \<open>
  \<^verbatim>\<open>If(self.pending.re & getattr(self.pending.fields, source.name), source.clear.eq(1))\<close>:
  the clear input of a source instance is 1 when one of the statements for it fires.
\<close>

definition src_clear :: "event_manager \<Rightarrow> signals \<Rightarrow> event_source \<Rightarrow> bool" where
  "src_clear m env s =
     list_ex (\<lambda>(nm, s'). duid s' = duid s \<and> pending_re env \<and> pending_field_val m env nm)
       (wired m)"

definition csr_of :: "event_manager \<Rightarrow> string \<Rightarrow> csr option" where
  "csr_of m nm = (case map_of (attrs m) nm of Some (Register c) \<Rightarrow> Some c | _ \<Rightarrow> None)"

text \<open>
  Modelled from the spec: bit \<open>i\<close> of the value of a status register is the value of the
  field that covers it.
\<close>

definition status_bit :: "event_manager \<Rightarrow> signals \<Rightarrow> nat \<Rightarrow> bool" where
  "status_bit m env i =
     (case csr_of m ''status'' of
        None \<Rightarrow> False
      | Some c \<Rightarrow>
          (case field_at c i of None \<Rightarrow> False | Some f \<Rightarrow> status_field_val m env (f_name f)))"

definition pending_bit :: "event_manager \<Rightarrow> signals \<Rightarrow> nat \<Rightarrow> bool" where
  "pending_bit m env i =
     (case csr_of m ''pending'' of
        None \<Rightarrow> False
      | Some c \<Rightarrow>
          (case field_at c i of None \<Rightarrow> False | Some f \<Rightarrow> pending_field_val m env (f_name f)))"

fun eval_expr :: "event_manager \<Rightarrow> signals \<Rightarrow> expr \<Rightarrow> bool" where
  "eval_expr m env (PendingAndEnable i) = (pending_bit m env i \<and> enable_storage env i)"
| "eval_expr m env (Or a b) = (eval_expr m env a \<or> eval_expr m env b)"

definition irq :: "event_manager \<Rightarrow> signals \<Rightarrow> bool" where
  "irq m env = (case irq_drv m of None \<Rightarrow> False | Some e \<Rightarrow> eval_expr m env e)"

text \<open>
  \<^verbatim>\<open>self.submodules += value\<close> makes every attached source part of the manager's design,
  so its \<^verbatim>\<open>sync\<close> statements run at each clock edge, with the clear input the manager's
  logic drives in that cycle. The registers of a source after the edge:
\<close>

definition next_regs :: "event_manager \<Rightarrow> signals \<Rightarrow> event_source \<Rightarrow> source_regs" where
  "next_regs m env s =
     sync (variant s) (regs env (duid s)) (trigger env (duid s)) (src_clear m env s)"

text \<open>
  The bit a source occupies in a register: that of the field found under the source's
  name. The rank of a source among the attached ones: the number of sources with a
  smaller id.
\<close>

definition bit_of :: "csr \<Rightarrow> event_source \<Rightarrow> nat option" where
  "bit_of c s = (case name s of None \<Rightarrow> None | Some nm \<Rightarrow> field_bit c nm)"

definition rank :: "event_source list \<Rightarrow> event_source \<Rightarrow> nat" where
  "rank xs s = length (filter (\<lambda>t. duid t < duid s) xs)"

text \<open>The three registers \<^verbatim>\<open>do_finalize\<close> builds from the sorted sources, for short.\<close>

abbreviation status_csr :: "event_source list \<Rightarrow> csr" where
  "status_csr srcs \<equiv>
     CSRStatus (length srcs) (status_desc (last srcs))
       (map (\<lambda>(i, s). status_field i s) (enumerate 0 srcs))"

abbreviation pending_csr :: "event_source list \<Rightarrow> csr" where
  "pending_csr srcs \<equiv>
     CSRStatus (length srcs) (pending_desc (last srcs))
       (map (\<lambda>(i, s). pending_field i s) (enumerate 0 srcs))"

abbreviation enable_csr :: "event_source list \<Rightarrow> csr" where
  "enable_csr srcs \<equiv>
     CSRStorage (length srcs) (enable_desc (last srcs))
       (map (\<lambda>(i, s). enable_field i s) (enumerate 0 srcs))"

section \<open>Example managers\<close>

text \<open>
  Two named sources, created in this order, and a source for which the tracer found no
  name; a manager with the named sources attached as \<^verbatim>\<open>tx\<close> then \<^verbatim>\<open>rx\<close>, one with them
  attached as \<^verbatim>\<open>rx\<close> then \<^verbatim>\<open>tx\<close>, and one with the unnamed source only. In the example
  cycle every source register holds a pending event, no trigger is high, and software
  writes the pending register with all data bits 0.
\<close>

definition ex_rx :: event_source where
  "ex_rx = EventSource_init Pulse None None (Some ''rx'') 0"

definition ex_tx :: event_source where
  "ex_tx = EventSource_init Level None None (Some ''tx'') 1"

definition ex_anon :: event_source where
  "ex_anon = EventSource_init Pulse None None None 0"

definition ex_mgr_a :: event_manager where
  "ex_mgr_a = projr (setattr (projr (setattr EventManager_init ''tx'' (Source ex_tx))) ''rx'' (Source ex_rx))"

definition ex_mgr_b :: event_manager where
  "ex_mgr_b = projr (setattr (projr (setattr EventManager_init ''rx'' (Source ex_rx))) ''tx'' (Source ex_tx))"

definition ex_mgr_anon :: event_manager where
  "ex_mgr_anon = projr (setattr EventManager_init ''ev'' (Source ex_anon))"

definition ex_env :: signals where
  "ex_env =
     \<lparr>trigger = (\<lambda>d. False), regs = (\<lambda>d. \<lparr>pending_r = True, old_trigger = False\<rparr>),
      pending_re = True, pending_dat_w = (\<lambda>i. False), enable_storage = (\<lambda>i. True)\<rparr>"

text \<open>
  A second cycle: every trigger is high, every source register holds a pending event,
  and software writes the pending register with all data bits 1.
\<close>

definition ex_env_busy :: signals where
  "ex_env_busy =
     \<lparr>trigger = (\<lambda>d. True), regs = (\<lambda>d. \<lparr>pending_r = True, old_trigger = True\<rparr>),
      pending_re = True, pending_dat_w = (\<lambda>i. True), enable_storage = (\<lambda>i. True)\<rparr>"

section \<open>Properties of the event sources\<close>

lemma run_append: "run v r (xs @ ys) = run v (run v r xs) ys"
  by (induction xs arbitrary: r) auto

lemma pulse_hold:
  "pending_r r \<Longrightarrow> \<forall>i \<in> set ins. \<not> snd i \<Longrightarrow> pending_r (run Pulse r ins)"
  by (induction ins arbitrary: r) (auto simp: Let_def)

lemma process_hold:
  "pending_r r \<Longrightarrow> \<forall>i \<in> set ins. \<not> snd i \<Longrightarrow> pending_r (run Process r ins)"
  by (induction ins arbitrary: r) (auto simp: Let_def)

text \<open>
  C4. A Pulse source: the status output is constantly 0. At each clock edge the clear
  statement is evaluated before the trigger statement, so the next value of pending is 1
  when trigger is asserted (also when clear is asserted in the same cycle), 0 when only
  clear is asserted, and unchanged otherwise. Hence one cycle of trigger sets pending,
  and pending stays 1 over any number of following cycles in which clear is not asserted.
\<close>

theorem pulse_semantics:
  "status_of Pulse trig = False
   \<and> pending_r (sync Pulse r trig clr) = (if trig then True else if clr then False else pending_r r)
   \<and> pending_r (sync Pulse r True True) = True
   \<and> ((\<forall>i \<in> set ins. \<not> snd i) \<longrightarrow>
        pending_of Pulse (run Pulse r ((True, clr) # ins)) t = True)
   \<and> pending_of Pulse (run Pulse r [(True, clr), (False, True)]) t = False"
proof -
  have hold: "(\<forall>i \<in> set ins. \<not> snd i) \<longrightarrow> pending_r (run Pulse (sync Pulse r True clr) ins)"
    using pulse_hold [of "sync Pulse r True clr" ins] by (simp add: Let_def)
  show ?thesis using hold by (simp add: Let_def)
qed

theorem pulse_semantics_witness:
  "list_all (\<lambda>i. \<not> snd i) [(False, False), (True, False)]
   \<and> pending_of Pulse
        (run Pulse \<lparr>pending_r = False, old_trigger = False\<rparr>
           ((True, True) # [(False, False), (True, False)])) False = True"
  using pulse_semantics [where r = "\<lparr>pending_r = False, old_trigger = False\<rparr>"
      and clr = True and ins = "[(False, False), (True, False)]" and t = False]
  by simp

text \<open>
  C5. A Process source: status equals trigger in the same cycle. The register
  old\_trigger holds the trigger of the previous cycle. The next value of pending is 1
  exactly when the current cycle is a falling edge (trigger 0, old\_trigger 1) or
  pending is 1 and clear is not asserted. So after a cycle with trigger 1 followed by a
  cycle with trigger 0, pending is 1 one clock edge later, whatever clear does in those
  cycles; it stays 1 while clear is not asserted, a cycle with trigger 1 never sets it,
  and a clear without a new falling edge resets it.
\<close>

theorem process_semantics:
  "status_of Process trig = trig
   \<and> old_trigger (sync Process r trig clr) = trig
   \<and> pending_r (sync Process r trig clr) =
       ((\<not> trig \<and> old_trigger r) \<or> (pending_r r \<and> \<not> clr))
   \<and> ((\<forall>i \<in> set ins. \<not> snd i) \<longrightarrow>
        pending_of Process (run Process r ([(True, ca), (False, cb)] @ ins)) t = True)
   \<and> pending_of Process (run Process r [(True, ca)]) t = (pending_r r \<and> \<not> ca)
   \<and> pending_of Process (run Process r [(True, ca), (False, cb), (False, True)]) t = False"
proof -
  let ?r2 = "run Process r [(True, ca), (False, cb)]"
  have p2: "pending_r ?r2" by (simp add: Let_def)
  have hold: "(\<forall>i \<in> set ins. \<not> snd i) \<longrightarrow> pending_r (run Process ?r2 ins)"
    using process_hold [of ?r2 ins] p2 by blast
  have "run Process r ([(True, ca), (False, cb)] @ ins) = run Process ?r2 ins"
    by (rule run_append)
  with hold show ?thesis by (auto simp: Let_def)
qed

theorem process_semantics_witness:
  "list_all (\<lambda>i. \<not> snd i) [(False, False), (False, False)]
   \<and> pending_of Process
        (run Process \<lparr>pending_r = False, old_trigger = False\<rparr>
           ([(True, False), (False, True)] @ [(False, False), (False, False)])) False = True"
  using process_semantics [where r = "\<lparr>pending_r = False, old_trigger = False\<rparr>"
      and ca = False and cb = True and ins = "[(False, False), (False, False)]" and t = False]
  by simp

text \<open>
  C6. A Level source: status and pending both equal trigger in the same cycle, whatever
  the registers and clear are; a clock edge changes no register, so the source holds no
  clocked state, and no output after any run of cycles depends on the clear inputs.
\<close>

theorem level_semantics:
  "status_of Level trig = trig
   \<and> pending_of Level r trig = trig
   \<and> sync Level r trig clr = r
   \<and> run Level r ins = r
   \<and> pending_of Level (run Level r ins) trig = pending_of Level (run Level r' ins') trig"
proof -
  have "run Level r ins = r" for r ins
    by (induction ins arbitrary: r) auto
  then show ?thesis by simp
qed

section \<open>Lemmas about the loops of do\_finalize\<close>

lemma annotate_eq:
  "annotate d f xs (desc, flds) =
     ((if xs = [] then desc else Some (d (snd (last xs)))), flds @ map (\<lambda>(i, s). f i s) xs)"
  by (induction xs arbitrary: desc flds) (auto)

lemma enumerate_Nil_iff: "(enumerate k xs = []) = (xs = [])"
  by (cases xs) auto

lemma last_enumerate: "xs \<noteq> [] \<Longrightarrow> snd (last (enumerate k xs)) = last xs"
  by (induction xs arbitrary: k) (auto simp: enumerate_Nil_iff)

lemma wire_ok:
  "\<forall>p \<in> set xs. \<exists>k. name (snd p) = Some k \<and> k \<in> set (map f_name (c_fields st))
        \<and> k \<in> set (map f_name (c_fields pe))
   \<Longrightarrow> wire st pe xs acc = Inr (acc @ map (\<lambda>p. (the (name (snd p)), snd p)) xs)"
proof (induction xs arbitrary: acc)
  case Nil
  then show ?case by simp
next
  case (Cons p xs)
  obtain i s where p: "p = (i, s)" by (cases p)
  from Cons.prems p obtain k where k: "name s = Some k" "k \<in> set (map f_name (c_fields st))"
    "k \<in> set (map f_name (c_fields pe))" by auto
  have rest: "\<forall>p \<in> set xs. \<exists>k. name (snd p) = Some k \<and> k \<in> set (map f_name (c_fields st))
        \<and> k \<in> set (map f_name (c_fields pe))" using Cons.prems by simp
  show ?case using k p Cons.IH [OF rest] by (simp add: getattr_field_def)
qed

lemma wire_InrD:
  "wire st pe xs acc = Inr w \<Longrightarrow> \<forall>p \<in> set xs. name (snd p) \<noteq> None"
proof (induction xs arbitrary: acc)
  case Nil
  then show ?case by simp
next
  case (Cons p xs)
  obtain i s where p: "p = (i, s)" by (cases p)
  show ?case using Cons.prems p Cons.IH
    by (auto simp: getattr_field_def split: option.splits if_splits sum.splits)
qed

lemma field_offsets_packed:
  "\<forall>j < length fs. f_size (fs ! j) = 1 \<and> (f_offset (fs ! j) = None \<or> f_offset (fs ! j) = Some (k + j))
   \<Longrightarrow> field_offsets k fs = [k..<k + length fs]"
proof (induction fs arbitrary: k)
  case Nil
  then show ?case by simp
next
  case (Cons f fs)
  from Cons.prems have f: "f_size f = 1" "f_offset f = None \<or> f_offset f = Some k"
    by force+
  have "\<forall>j < length fs. f_size (fs ! j) = 1 \<and>
      (f_offset (fs ! j) = None \<or> f_offset (fs ! j) = Some (Suc k + j))"
    using Cons.prems by force
  from Cons.IH [OF this] have tl: "field_offsets (Suc k) fs = [Suc k..<Suc k + length fs]" .
  have up: "[k..<k + length (f # fs)] = k # [Suc k..<Suc k + length fs]"
    by (subst upt_rec) simp
  from f show ?case unfolding up by (auto simp: Let_def tl)
qed

lemma filter_less_sorted:
  "sorted (map f ys) \<Longrightarrow> distinct (map f ys) \<Longrightarrow> i < length ys
   \<Longrightarrow> filter (\<lambda>t. f t < f (ys ! i)) ys = take i ys"
proof (induction ys arbitrary: i)
  case Nil
  then show ?case by simp
next
  case (Cons y ys)
  show ?case
  proof (cases i)
    case 0
    then show ?thesis using Cons.prems by (auto simp: filter_empty_conv)
  next
    case (Suc j)
    then have j: "j < length ys" using Cons.prems by simp
    then have "ys ! j \<in> set ys" by simp
    then have "f y < f (ys ! j)" using Cons.prems by (force simp: less_le)
    then show ?thesis using Suc Cons.IH [of j] Cons.prems j by simp
  qed
qed

lemma rank_sorted:
  assumes "distinct (map duid us)" "i < length us"
  shows "rank us (sort_key duid us ! i) = i"
proof -
  let ?ys = "sort_key duid us"
  let ?P = "\<lambda>t. duid t < duid (?ys ! i)"
  have "length (filter ?P us) = size (filter_mset ?P (mset us))"
    by (metis mset_filter size_mset)
  also have "\<dots> = size (filter_mset ?P (mset ?ys))" by simp
  also have "\<dots> = length (filter ?P ?ys)" by (metis mset_filter size_mset)
  also have "filter ?P ?ys = take i ?ys"
  proof (rule filter_less_sorted)
    show "sorted (map duid ?ys)" by simp
    have "mset (map duid ?ys) = mset (map duid us)" by simp
    then show "distinct (map duid ?ys)" using assms(1) by (metis mset_eq_imp_distinct_iff)
    show "i < length ?ys" using assms(2) by simp
  qed
  finally show ?thesis using assms(2) by (simp add: rank_def)
qed

lemma map_of_rev_zip_nth:
  "distinct xs \<Longrightarrow> i < length xs \<Longrightarrow> map_of (rev (zip xs [k..<k + length xs])) (xs ! i) = Some (k + i)"
proof -
  assume d: "distinct xs" and i: "i < length xs"
  have "distinct (map fst (rev (zip xs [k..<k + length xs])))"
    using d by (simp add: rev_map [symmetric])
  moreover have "(xs ! i, k + i) \<in> set (rev (zip xs [k..<k + length xs]))"
    using i by (auto simp: set_zip intro!: exI [of _ i])
  ultimately show ?thesis by simp
qed

lemma make_csr_annotate:
  "make_csr ctor n (annotate d f (enumerate 0 srcs) (None, [])) =
     (if srcs = [] then Inl UnboundLocalError
      else Inr (ctor n (d (last srcs)) (map (\<lambda>(i, s). f i s) (enumerate 0 srcs))))"
  by (simp add: make_csr_def annotate_eq enumerate_Nil_iff last_enumerate)

lemma setattr_Register: "setattr m k (Register c) = Inr (m\<lparr>attrs := AList.update k (Register c) (attrs m)\<rparr>)"
  by (simp add: setattr_def)

lemma names_status:
  "\<forall>s \<in> set srcs. name s \<noteq> None \<Longrightarrow>
   map f_name (map (\<lambda>(i, s). status_field i s) (enumerate k srcs)) = map (\<lambda>s. the (name s)) srcs"
  by (induction srcs arbitrary: k) (auto simp: status_field_def)

lemma names_pending:
  "\<forall>s \<in> set srcs. name s \<noteq> None \<Longrightarrow>
   map f_name (map (\<lambda>(i, s). pending_field i s) (enumerate k srcs)) = map (\<lambda>s. the (name s)) srcs"
  by (induction srcs arbitrary: k) (auto simp: pending_field_def)

lemma names_enable:
  "\<forall>s \<in> set srcs. name s \<noteq> None \<Longrightarrow>
   map f_name (map (\<lambda>(i, s). enable_field i s) (enumerate k srcs)) = map (\<lambda>s. the (name s)) srcs"
  by (induction srcs arbitrary: k) (auto simp: enable_field_def)

lemma c_fields_ctor:
  "c_fields (CSRStatus n d fs) = fs" "c_fields (CSRStorage n d fs) = fs"
  by (simp_all add: CSRStatus_def CSRStorage_def)

lemma map_snd_enumerate_gen: "map (\<lambda>p. g (snd p)) (enumerate k xs) = map g xs"
  by (induction xs arbitrary: k) auto

lemma wire_named:
  assumes "\<forall>s \<in> set srcs. name s \<noteq> None"
  shows "wire (status_csr srcs) (pending_csr srcs) (enumerate 0 srcs) [] =
           Inr (map (\<lambda>s. (the (name s), s)) srcs)"
proof -
  have "\<forall>p \<in> set (enumerate 0 srcs). \<exists>k. name (snd p) = Some k
          \<and> k \<in> set (map f_name (c_fields (status_csr srcs)))
          \<and> k \<in> set (map f_name (c_fields (pending_csr srcs)))"
  proof
    fix p assume "p \<in> set (enumerate 0 srcs)"
    then have s: "snd p \<in> set srcs"
      by (metis imageI list.set_map map_snd_enumerate)
    with assms obtain k where k: "name (snd p) = Some k" by auto
    have st: "map f_name (c_fields (status_csr srcs)) = map (\<lambda>s. the (name s)) srcs"
      by (simp only: c_fields_ctor names_status [OF assms])
    have pe: "map f_name (c_fields (pending_csr srcs)) = map (\<lambda>s. the (name s)) srcs"
      by (simp only: c_fields_ctor names_pending [OF assms])
    have "k \<in> set (map (\<lambda>s. the (name s)) srcs)" using s k by force
    then show "\<exists>k. name (snd p) = Some k
          \<and> k \<in> set (map f_name (c_fields (status_csr srcs)))
          \<and> k \<in> set (map f_name (c_fields (pending_csr srcs)))"
      using k by (simp only: st pe) simp
  qed
  from wire_ok [OF this, of "[]"]
  have "wire (status_csr srcs) (pending_csr srcs) (enumerate 0 srcs) [] =
          Inr (map (\<lambda>p. (the (name (snd p)), snd p)) (enumerate 0 srcs))" by simp
  also have "map (\<lambda>p. (the (name (snd p)), snd p)) (enumerate 0 srcs) =
      map (\<lambda>s. (the (name s), s)) srcs"
    by (rule map_snd_enumerate_gen)
  finally show ?thesis .
qed

lemma reduce_upt:
  "0 < n \<Longrightarrow> reduce f (map g [0..<n]) = Inr (foldl f (g 0) (map g [Suc 0..<n]))"
  by (subst upt_rec) simp

lemma do_finalize_named:
  assumes srcs: "sort_key duid (sources_u m) = srcs"
    and ne: "srcs \<noteq> []"
    and named: "\<forall>s \<in> set srcs. name s \<noteq> None"
  shows "do_finalize m =
     Inr (m\<lparr>attrs :=
              AList.update ''enable'' (Register (enable_csr srcs))
                (AList.update ''pending'' (Register (pending_csr srcs))
                   (AList.update ''status'' (Register (status_csr srcs)) (attrs m))),
            wired := wired m @ map (\<lambda>s. (the (name s), s)) srcs,
            irq_drv := Some (foldl Or (PendingAndEnable 0)
                              (map PendingAndEnable [Suc 0..<length srcs]))\<rparr>)"
proof -
  have n: "0 < length srcs" using ne by simp
  show ?thesis
    unfolding do_finalize_def srcs Let_def
    by (simp add: make_csr_annotate ne setattr_Register wire_named [OF named] reduce_upt [OF n])
qed

lemma do_finalize_InrD:
  assumes "do_finalize m = Inr m'"
  shows "sort_key duid (sources_u m) \<noteq> [] \<and> (\<forall>s \<in> set (sort_key duid (sources_u m)). name s \<noteq> None)"
proof -
  let ?srcs = "sort_key duid (sources_u m)"
  have ne: "?srcs \<noteq> []"
  proof
    assume "?srcs = []"
    then have "do_finalize m = Inl (UnboundLocalError, m)"
      unfolding do_finalize_def Let_def by (simp add: make_csr_def)
    with assms show False by simp
  qed
  obtain w where w: "wire (status_csr ?srcs) (pending_csr ?srcs) (enumerate 0 ?srcs) [] = Inr w"
    using assms ne unfolding do_finalize_def Let_def
    by (auto simp: make_csr_annotate setattr_Register split: sum.splits prod.splits)
  from wire_InrD [OF w] have "\<forall>p \<in> set (enumerate 0 ?srcs). name (snd p) \<noteq> None" .
  moreover have "snd ` set (enumerate 0 ?srcs) = set ?srcs"
    by (metis list.set_map map_snd_enumerate)
  ultimately have "\<forall>s \<in> set ?srcs. name s \<noteq> None" by (metis imageE)
  with ne show ?thesis by blast
qed

section \<open>The registers and the logic after do\_finalize\<close>

lemma offsets_status:
  "field_offsets 0 (map (\<lambda>(i, s). status_field i s) (enumerate 0 srcs)) = [0..<length srcs]"
  using field_offsets_packed [of "map (\<lambda>(i, s). status_field i s) (enumerate 0 srcs)" 0]
  by (auto simp: nth_enumerate_eq status_field_def split: option.splits)

lemma offsets_pending:
  "field_offsets 0 (map (\<lambda>(i, s). pending_field i s) (enumerate 0 srcs)) = [0..<length srcs]"
  using field_offsets_packed [of "map (\<lambda>(i, s). pending_field i s) (enumerate 0 srcs)" 0]
  by (auto simp: nth_enumerate_eq pending_field_def split: option.splits)

lemma offsets_enable:
  "field_offsets 0 (map (\<lambda>(i, s). enable_field i s) (enumerate 0 srcs)) = [0..<length srcs]"
  using field_offsets_packed [of "map (\<lambda>(i, s). enable_field i s) (enumerate 0 srcs)" 0]
  by (auto simp: nth_enumerate_eq enable_field_def split: option.splits)

lemma distinct_the_names:
  assumes "distinct (map name srcs)" "\<forall>s \<in> set srcs. name s \<noteq> None"
  shows "distinct (map (\<lambda>s. the (name s)) srcs)"
proof -
  have "inj_on the (set (map name srcs))"
  proof (rule inj_onI)
    fix a b :: "string option"
    assume a: "a \<in> set (map name srcs)" and b: "b \<in> set (map name srcs)"
      and eq: "the a = the b"
    from a assms(2) have "a \<noteq> None" by auto
    moreover from b assms(2) have "b \<noteq> None" by auto
    ultimately show "a = b" using eq by auto
  qed
  then have "distinct (map the (map name srcs))"
    using assms(1) by (simp only: distinct_map)
  then show ?thesis by (simp add: comp_def)
qed

lemma field_bit_named:
  assumes d: "distinct (map name srcs)" and named: "\<forall>s \<in> set srcs. name s \<noteq> None"
    and i: "i < length srcs"
  shows "field_bit (status_csr srcs) (the (name (srcs ! i))) = Some i"
    and "field_bit (pending_csr srcs) (the (name (srcs ! i))) = Some i"
    and "field_bit (enable_csr srcs) (the (name (srcs ! i))) = Some i"
proof -
  let ?ns = "map (\<lambda>s. the (name s)) srcs"
  have dn: "distinct ?ns" by (rule distinct_the_names [OF d named])
  have "map_of (rev (zip ?ns [0..<0 + length ?ns])) (?ns ! i) = Some (0 + i)"
    by (rule map_of_rev_zip_nth [OF dn]) (simp add: i)
  then have key: "map_of (rev (zip ?ns [0..<length srcs])) (the (name (srcs ! i))) = Some i"
    using i by simp
  show "field_bit (status_csr srcs) (the (name (srcs ! i))) = Some i"
    unfolding field_bit_def c_fields_ctor offsets_status names_status [OF named] by (rule key)
  show "field_bit (pending_csr srcs) (the (name (srcs ! i))) = Some i"
    unfolding field_bit_def c_fields_ctor offsets_pending names_pending [OF named] by (rule key)
  show "field_bit (enable_csr srcs) (the (name (srcs ! i))) = Some i"
    unfolding field_bit_def c_fields_ctor offsets_enable names_enable [OF named] by (rule key)
qed

lemma csr_of_update:
  "csr_of (m\<lparr>attrs := AList.update k v al\<rparr>) k' =
     (if k' = k then (case v of Register c \<Rightarrow> Some c | _ \<Rightarrow> None) else csr_of (m\<lparr>attrs := al\<rparr>) k')"
  by (simp add: csr_of_def update_conv')

lemma csr_of_more [simp]:
  "csr_of (m\<lparr>wired := w\<rparr>) k = csr_of m k"
  "csr_of (m\<lparr>irq_drv := e\<rparr>) k = csr_of m k"
  "csr_of (m\<lparr>submodules := sm\<rparr>) k = csr_of m k"
  "csr_of (m\<lparr>finalized := b\<rparr>) k = csr_of m k"
  by (simp_all add: csr_of_def)

lemma do_finalize_regs:
  assumes "do_finalize m = Inr m'"
  shows "csr_of m' ''status'' = Some (status_csr (sort_key duid (sources_u m)))"
    and "csr_of m' ''pending'' = Some (pending_csr (sort_key duid (sources_u m)))"
    and "csr_of m' ''enable'' = Some (enable_csr (sort_key duid (sources_u m)))"
    and "wired m' = wired m @ map (\<lambda>s. (the (name s), s)) (sort_key duid (sources_u m))"
    and "irq_drv m' = Some (foldl Or (PendingAndEnable 0)
                              (map PendingAndEnable [Suc 0..<length (sources_u m)]))"
    and "submodules m' = submodules m" and "finalized m' = finalized m"
proof -
  let ?srcs = "sort_key duid (sources_u m)"
  from do_finalize_InrD [OF assms]
  have ne: "?srcs \<noteq> []" and named: "\<forall>s \<in> set ?srcs. name s \<noteq> None" by blast+
  from do_finalize_named [OF refl ne named] assms
  have m': "m' = m\<lparr>attrs :=
              AList.update ''enable'' (Register (enable_csr ?srcs))
                (AList.update ''pending'' (Register (pending_csr ?srcs))
                   (AList.update ''status'' (Register (status_csr ?srcs)) (attrs m))),
            wired := wired m @ map (\<lambda>s. (the (name s), s)) ?srcs,
            irq_drv := Some (foldl Or (PendingAndEnable 0)
                              (map PendingAndEnable [Suc 0..<length ?srcs]))\<rparr>"
    by simp
  show "csr_of m' ''status'' = Some (status_csr ?srcs)"
    unfolding m' by (simp add: csr_of_def update_conv')
  show "csr_of m' ''pending'' = Some (pending_csr ?srcs)"
    unfolding m' by (simp add: csr_of_def update_conv')
  show "csr_of m' ''enable'' = Some (enable_csr ?srcs)"
    unfolding m' by (simp add: csr_of_def update_conv')
  show "wired m' = wired m @ map (\<lambda>s. (the (name s), s)) ?srcs"
    unfolding m' by simp
  show "irq_drv m' = Some (foldl Or (PendingAndEnable 0)
                              (map PendingAndEnable [Suc 0..<length (sources_u m)]))"
    unfolding m' by simp
  show "submodules m' = submodules m" unfolding m' by simp
  show "finalized m' = finalized m" unfolding m' by simp
qed

lemma eval_foldl_Or:
  "eval_expr m env (foldl Or e es) = (eval_expr m env e \<or> (\<exists>x \<in> set es. eval_expr m env x))"
  by (induction es arbitrary: e) auto

lemma irq_is_or:
  assumes "do_finalize m = Inr m'"
  shows "irq m' env = (\<exists>i < length (sources_u m). pending_bit m' env i \<and> enable_storage env i)"
proof -
  let ?n = "length (sources_u m)"
  from do_finalize_InrD [OF assms] have n: "0 < ?n" by (auto simp: length_greater_0_conv [symmetric] simp del: length_greater_0_conv)
  have "irq m' env = (eval_expr m' env (PendingAndEnable 0) \<or>
          (\<exists>x \<in> set (map PendingAndEnable [Suc 0..<?n]). eval_expr m' env x))"
    by (simp add: irq_def do_finalize_regs(5) [OF assms] eval_foldl_Or)
  also have "\<dots> = (\<exists>i \<in> insert 0 {Suc 0..<?n}. pending_bit m' env i \<and> enable_storage env i)"
    by auto
  also have "insert 0 {Suc 0..<?n} = {..<?n}" using n by auto
  finally show ?thesis by auto
qed

lemma map_of_rev_wired:
  assumes d: "distinct (map name srcs)" and named: "\<forall>s \<in> set srcs. name s \<noteq> None"
    and s: "s \<in> set srcs"
  shows "map_of (rev (map (\<lambda>s. (the (name s), s)) srcs)) (the (name s)) = Some s"
proof -
  let ?w = "rev (map (\<lambda>s. (the (name s), s)) srcs)"
  have "map fst ?w = rev (map (\<lambda>s. the (name s)) srcs)"
    by (simp add: rev_map comp_def)
  then have "distinct (map fst ?w)"
    using distinct_the_names [OF d named] by simp
  moreover have "(the (name s), s) \<in> set ?w" using s by auto
  ultimately show ?thesis by simp
qed

lemma field_vals_named:
  assumes fin: "do_finalize m = Inr m'" and w: "wired m = []"
    and d: "distinct (map name (sources_u m))" and s: "s \<in> set (sources_u m)"
  shows "pending_field_val m' env (the (name s)) = src_pending env s"
    and "status_field_val m' env (the (name s)) = src_status env s"
proof -
  let ?srcs = "sort_key duid (sources_u m)"
  from do_finalize_InrD [OF fin] have named: "\<forall>s \<in> set ?srcs. name s \<noteq> None" by blast
  have "mset (map name ?srcs) = mset (map name (sources_u m))" by simp
  then have d': "distinct (map name ?srcs)" using d by (metis mset_eq_imp_distinct_iff)
  have s': "s \<in> set ?srcs" using s by simp
  have wm: "wired m' = map (\<lambda>s. (the (name s), s)) ?srcs"
    using do_finalize_regs(4) [OF fin] w by simp
  have look: "map_of (rev (wired m')) (the (name s)) = Some s"
    unfolding wm by (rule map_of_rev_wired [OF d' named s'])
  show "pending_field_val m' env (the (name s)) = src_pending env s"
    by (simp add: pending_field_val_def look)
  show "status_field_val m' env (the (name s)) = src_status env s"
    by (simp add: status_field_val_def look)
qed

lemma clear_is_re_and_pending:
  assumes fin: "do_finalize m = Inr m'" and w: "wired m = []"
    and d: "distinct (map name (sources_u m))" and di: "distinct (map duid (sources_u m))"
    and s: "s \<in> set (sources_u m)"
  shows "src_clear m' env s = (pending_re env \<and> src_pending env s)"
proof -
  let ?srcs = "sort_key duid (sources_u m)"
  have wm: "wired m' = map (\<lambda>s. (the (name s), s)) ?srcs"
    using do_finalize_regs(4) [OF fin] w by simp
  have inj: "inj_on duid (set (sources_u m))" using di by (simp add: distinct_map)
  have "src_clear m' env s =
      (\<exists>t \<in> set ?srcs. duid t = duid s \<and> pending_re env \<and> pending_field_val m' env (the (name t)))"
    by (simp add: src_clear_def wm list_ex_iff)
  also have "\<dots> = (pending_re env \<and> pending_field_val m' env (the (name s)))"
    using s inj by (auto dest: inj_onD)
  finally show ?thesis by (simp add: field_vals_named(1) [OF fin w d s])
qed

lemma find_covering:
  "\<forall>f \<in> set fs. f_size f = 1 \<Longrightarrow> k \<le> i \<Longrightarrow> i < k + length fs \<Longrightarrow>
   find (\<lambda>(f, off). off \<le> i \<and> i < off + f_size f) (zip fs [k..<k + length fs]) =
     Some (fs ! (i - k), i)"
proof (induction fs arbitrary: k)
  case Nil
  then show ?case by simp
next
  case (Cons f fs)
  have up: "[k..<k + length (f # fs)] = k # [Suc k..<Suc k + length fs]"
    by (subst upt_rec) simp
  show ?case
  proof (cases "i = k")
    case True
    then show ?thesis using Cons.prems unfolding up by simp
  next
    case False
    then have "Suc k \<le> i" "i < Suc k + length fs" using Cons.prems by auto
    from Cons.IH [OF _ this] Cons.prems(1)
    have "find (\<lambda>(f, off). off \<le> i \<and> i < off + f_size f) (zip fs [Suc k..<Suc k + length fs]) =
        Some (fs ! (i - Suc k), i)" by simp
    moreover have "(f # fs) ! (i - k) = fs ! (i - Suc k)" using False Cons.prems(2)
      by (simp add: nth_Cons' Suc_diff_le)
    ultimately show ?thesis using False Cons.prems unfolding up by simp
  qed
qed

lemma field_at_status:
  assumes i: "i < length srcs"
  shows "field_at (CSRStatus n d (map (\<lambda>(i, s). status_field i s) (enumerate 0 srcs))) i =
           Some (status_field i (srcs ! i))"
proof -
  let ?fs = "map (\<lambda>(i, s). status_field i s) (enumerate 0 srcs)"
  have sz: "\<forall>f \<in> set ?fs. f_size f = 1"
    by (auto simp: status_field_def split: option.splits)
  have "find (\<lambda>(f, off). off \<le> i \<and> i < off + f_size f) (zip ?fs [0..<0 + length ?fs]) =
          Some (?fs ! (i - 0), i)"
    by (rule find_covering [OF sz]) (simp_all add: i)
  moreover have "?fs ! i = status_field i (srcs ! i)"
    using i by (simp add: nth_enumerate_eq)
  ultimately have "find (\<lambda>(f, off). off \<le> i \<and> i < off + f_size f)
      (zip ?fs [0..<length srcs]) = Some (status_field i (srcs ! i), i)" by simp
  then show ?thesis
    unfolding field_at_def c_fields_ctor offsets_status by simp
qed

lemma field_at_pending:
  assumes i: "i < length srcs"
  shows "field_at (CSRStatus n d (map (\<lambda>(i, s). pending_field i s) (enumerate 0 srcs))) i =
           Some (pending_field i (srcs ! i))"
proof -
  let ?fs = "map (\<lambda>(i, s). pending_field i s) (enumerate 0 srcs)"
  have sz: "\<forall>f \<in> set ?fs. f_size f = 1"
    by (auto simp: pending_field_def split: option.splits)
  have "find (\<lambda>(f, off). off \<le> i \<and> i < off + f_size f) (zip ?fs [0..<0 + length ?fs]) =
          Some (?fs ! (i - 0), i)"
    by (rule find_covering [OF sz]) (simp_all add: i)
  moreover have "?fs ! i = pending_field i (srcs ! i)"
    using i by (simp add: nth_enumerate_eq)
  ultimately have "find (\<lambda>(f, off). off \<le> i \<and> i < off + f_size f)
      (zip ?fs [0..<length srcs]) = Some (pending_field i (srcs ! i), i)" by simp
  then show ?thesis
    unfolding field_at_def c_fields_ctor offsets_pending by simp
qed

lemma bits_named:
  assumes fin: "do_finalize m = Inr m'" and w: "wired m = []"
    and d: "distinct (map name (sources_u m))" and i: "i < length (sources_u m)"
  shows "pending_bit m' env i = src_pending env (sort_key duid (sources_u m) ! i)"
    and "status_bit m' env i = src_status env (sort_key duid (sources_u m) ! i)"
proof -
  let ?srcs = "sort_key duid (sources_u m)"
  let ?s = "?srcs ! i"
  have i': "i < length ?srcs" using i by simp
  have len: "length (sources_u m) = length ?srcs" by simp
  from i' have mem: "?s \<in> set ?srcs" by (rule nth_mem)
  then have s: "?s \<in> set (sources_u m)" by simp
  from do_finalize_InrD [OF fin] mem obtain k where k: "name ?s = Some k" by auto
  have "f_name (pending_field i ?s) = the (name ?s)" by (simp add: pending_field_def k)
  then show "pending_bit m' env i = src_pending env ?s"
    unfolding pending_bit_def do_finalize_regs(2) [OF fin]
    by (simp only: field_at_pending [OF i'] option.case field_vals_named(1) [OF fin w d s])
  have "f_name (status_field i ?s) = the (name ?s)" by (simp add: status_field_def k)
  then show "status_bit m' env i = src_status env ?s"
    unfolding status_bit_def do_finalize_regs(1) [OF fin]
    by (simp only: field_at_status [OF i'] option.case field_vals_named(2) [OF fin w d s])
qed

section \<open>Bit allocation\<close>

lemma mset_sources_u:
  assumes "mset (attrs mp) = mset (attrs m)"
  shows "mset (sources_u mp) = mset (sources_u m)"
proof -
  have "mset (sort_key fst (attrs mp)) = mset (sort_key fst (attrs m))"
    using assms by simp
  then have "mset (xdir mp) = mset (xdir m)"
    by (simp add: xdir_def)
  then have "mset (map snd (xdir mp)) = mset (map snd (xdir m))"
    by simp
  then show ?thesis
    by (simp add: sources_u_def List.map_filter_def)
qed

lemma sorted_sources_perm:
  assumes perm: "mset (attrs mp) = mset (attrs m)"
    and ids: "distinct (map duid (sources_u m))"
  shows "sort_key duid (sources_u mp) = sort_key duid (sources_u m)"
proof (rule sort_key_inj_key_eq)
  show "mset (sources_u mp) = mset (sort_key duid (sources_u m))"
    using mset_sources_u [OF perm] by simp
  have "mset (map duid (sources_u mp)) = mset (map duid (sources_u m))"
    using mset_sources_u [OF perm] by simp
  then have "distinct (map duid (sources_u mp))"
    using ids by (metis mset_eq_imp_distinct_iff)
  then show "inj_on duid (set (sources_u mp))" by (simp add: distinct_map)
  show "sorted (map duid (sort_key duid (sources_u m)))" by simp
qed

lemma wire_error:
  "wire st pe xs acc = Inl (e, w) \<Longrightarrow> e \<noteq> FinalizeError"
proof (induction xs arbitrary: acc)
  case Nil
  then show ?case by simp
next
  case (Cons p xs)
  obtain i s where p: "p = (i, s)" by (cases p)
  show ?case using Cons.prems p Cons.IH
    by (auto simp: getattr_field_def split: option.splits if_splits sum.splits)
qed

lemma do_finalize_error:
  assumes "do_finalize m = Inl (e, mf)"
  shows "e \<noteq> FinalizeError"
proof (cases "sort_key duid (sources_u m) = []")
  case True
  then have "do_finalize m = Inl (UnboundLocalError, m)"
    unfolding do_finalize_def Let_def by (simp add: make_csr_def)
  with assms show ?thesis by simp
next
  case False
  let ?srcs = "sort_key duid (sources_u m)"
  from False have n: "0 < length (sources_u m)" by (cases "sources_u m") auto
  from assms False obtain w where
    "wire (status_csr ?srcs) (pending_csr ?srcs) (enumerate 0 ?srcs) [] = Inl (e, w)"
    unfolding do_finalize_def Let_def
    by (auto simp: make_csr_annotate setattr_Register reduce_upt [OF n]
          split: sum.splits prod.splits)
  then show ?thesis by (rule wire_error)
qed

text \<open>
  C1. Let \<^verbatim>\<open>do_finalize\<close> succeed on a manager whose collected sources have pairwise
  distinct ids and pairwise distinct names. Then in each of the status, pending and
  enable registers the bit of every collected source is its rank: the number of
  collected sources with a smaller id. Any manager whose attribute dictionary holds the
  same items in another order (the same sources attached under the same names in another
  order) finalizes too, with the same three registers, the same added wiring and the
  same interrupt expression.
\<close>

theorem bit_index_is_rank:
  assumes fin: "do_finalize m = Inr mf"
    and ids: "distinct (map duid (sources_u m))"
    and names: "distinct (map name (sources_u m))"
    and perm: "mset (attrs mp) = mset (attrs m)"
  shows "(\<exists>st pe en.
            csr_of mf ''status'' = Some st \<and> csr_of mf ''pending'' = Some pe \<and>
            csr_of mf ''enable'' = Some en \<and>
            (\<forall>s \<in> set (sources_u m).
               bit_of st s = Some (rank (sources_u m) s) \<and>
               bit_of pe s = Some (rank (sources_u m) s) \<and>
               bit_of en s = Some (rank (sources_u m) s)))
       \<and> (\<exists>mq. do_finalize mp = Inr mq \<and>
              csr_of mq ''status'' = csr_of mf ''status'' \<and>
              csr_of mq ''pending'' = csr_of mf ''pending'' \<and>
              csr_of mq ''enable'' = csr_of mf ''enable'' \<and>
              drop (length (wired mp)) (wired mq) = drop (length (wired m)) (wired mf) \<and>
              irq_drv mq = irq_drv mf)"
proof -
  let ?us = "sources_u m"
  let ?srcs = "sort_key duid ?us"
  from do_finalize_InrD [OF fin]
  have ne: "?srcs \<noteq> []" and named: "\<forall>s \<in> set ?srcs. name s \<noteq> None" by blast+
  have "mset (map name ?srcs) = mset (map name ?us)" by simp
  then have dn: "distinct (map name ?srcs)" using names by (metis mset_eq_imp_distinct_iff)
  have bits: "bit_of (status_csr ?srcs) s = Some (rank ?us s) \<and>
              bit_of (pending_csr ?srcs) s = Some (rank ?us s) \<and>
              bit_of (enable_csr ?srcs) s = Some (rank ?us s)" if s: "s \<in> set ?us" for s
  proof -
    from s have "s \<in> set ?srcs" by simp
    then obtain i where i: "i < length ?srcs" and si: "?srcs ! i = s"
      by (meson in_set_conv_nth)
    from i have iu: "i < length ?us" by simp
    have r: "rank ?us s = i" using rank_sorted [OF ids iu] si by simp
    from named s obtain k where k: "name s = Some k" by auto
    have "field_bit (status_csr ?srcs) (the (name s)) = Some i"
      "field_bit (pending_csr ?srcs) (the (name s)) = Some i"
      "field_bit (enable_csr ?srcs) (the (name s)) = Some i"
      using field_bit_named [OF dn named i] si by simp_all
    then show ?thesis by (simp add: bit_of_def k r)
  qed
  have first: "\<exists>st pe en.
            csr_of mf ''status'' = Some st \<and> csr_of mf ''pending'' = Some pe \<and>
            csr_of mf ''enable'' = Some en \<and>
            (\<forall>s \<in> set (sources_u m).
               bit_of st s = Some (rank (sources_u m) s) \<and>
               bit_of pe s = Some (rank (sources_u m) s) \<and>
               bit_of en s = Some (rank (sources_u m) s))"
    using do_finalize_regs(1-3) [OF fin] bits by blast
  have same: "sort_key duid (sources_u mp) = ?srcs"
    by (rule sorted_sources_perm [OF perm ids])
  from do_finalize_named [OF same ne named]
  obtain mq where mq: "do_finalize mp = Inr mq" by blast
  have len: "length (sources_u mp) = length ?us"
    using mset_sources_u [OF perm] by (metis size_mset)
  have second: "csr_of mq ''status'' = csr_of mf ''status'' \<and>
              csr_of mq ''pending'' = csr_of mf ''pending'' \<and>
              csr_of mq ''enable'' = csr_of mf ''enable'' \<and>
              drop (length (wired mp)) (wired mq) = drop (length (wired m)) (wired mf) \<and>
              irq_drv mq = irq_drv mf"
    by (simp add: do_finalize_regs [OF mq] do_finalize_regs [OF fin] same len)
  from first mq second show ?thesis by blast
qed

theorem bit_index_is_rank_witness:
  "bit_of (the (csr_of (projr (do_finalize ex_mgr_a)) ''status'')) ex_tx = Some 1
   \<and> bit_of (the (csr_of (projr (do_finalize ex_mgr_a)) ''pending'')) ex_rx = Some 0
   \<and> bit_of (the (csr_of (projr (do_finalize ex_mgr_a)) ''enable'')) ex_tx = Some 1
   \<and> attrs ex_mgr_b \<noteq> attrs ex_mgr_a
   \<and> csr_of (projr (do_finalize ex_mgr_b)) ''status'' = csr_of (projr (do_finalize ex_mgr_a)) ''status''"
proof -
  have fin: "do_finalize ex_mgr_a = Inr (projr (do_finalize ex_mgr_a))"
    by (rule sum.collapse(2) [symmetric]) code_simp
  have us: "sources_u ex_mgr_a = [ex_rx, ex_tx]" by code_simp
  have ids: "distinct (map duid (sources_u ex_mgr_a))" by code_simp
  have names: "distinct (map name (sources_u ex_mgr_a))" by code_simp
  have perm: "mset (attrs ex_mgr_b) = mset (attrs ex_mgr_a)"
    by (simp add: ex_mgr_a_def ex_mgr_b_def setattr_def EventManager_init_def)
  have r: "rank (sources_u ex_mgr_a) ex_tx = 1" "rank (sources_u ex_mgr_a) ex_rx = 0"
    by code_simp+
  have ne: "attrs ex_mgr_b \<noteq> attrs ex_mgr_a" by code_simp
  from bit_index_is_rank [OF fin ids names perm] r ne us
  show ?thesis by auto
qed

section \<open>Clearing, failures of do\_finalize, and the life cycle\<close>

text \<open>
  C10, as stated, fails in its last clause: a write to the pending register asserts
  clear on every pending source, but it does not clear every one of them. In a cycle in
  which the triggers are high, the Level source \<^verbatim>\<open>tx\<close> and the Pulse source \<^verbatim>\<open>rx\<close> are
  pending, both get clear, and both are still pending after the clock edge.
\<close>

theorem write_does_not_clear_counterexample:
  "pending_re ex_env_busy = True
   \<and> src_pending ex_env_busy ex_tx = True
   \<and> src_clear (projr (do_finalize ex_mgr_a)) ex_env_busy ex_tx = True
   \<and> pending_of (variant ex_tx) (next_regs (projr (do_finalize ex_mgr_a)) ex_env_busy ex_tx) True
       = True
   \<and> src_pending ex_env_busy ex_rx = True
   \<and> src_clear (projr (do_finalize ex_mgr_a)) ex_env_busy ex_rx = True
   \<and> pending_r (next_regs (projr (do_finalize ex_mgr_a)) ex_env_busy ex_rx) = True"
  by code_simp

text \<open>
  C10, amended. Let \<^verbatim>\<open>do_finalize\<close> succeed on a manager that carries no earlier wiring and
  whose collected sources have pairwise distinct names and ids. Then the clear input of
  every collected source is the write strobe of the pending register ANDed with that
  source's own pending output in the same cycle, and it does not depend on the data
  written: a write asserts clear on exactly the sources that are pending. After the
  clock edge, a Pulse source is pending exactly when its trigger was high or it was
  pending and there was no write; a Process source is pending exactly when the cycle was
  a falling edge or it was pending and there was no write; a Level source keeps its
  registers. So a write, whatever its data, clears every pending Pulse source whose
  trigger is low and every pending Process source that sees no falling edge, and it
  changes nothing for a source that is not pending.
\<close>

theorem pending_write_clears_pending:
  assumes fin: "do_finalize m = Inr mf" and w: "wired m = []"
    and names: "distinct (map name (sources_u m))"
    and ids: "distinct (map duid (sources_u m))"
    and s: "s \<in> set (sources_u m)"
  shows "src_clear mf env s = (pending_re env \<and> src_pending env s)
       \<and> src_clear mf (env\<lparr>pending_dat_w := dat\<rparr>) s = src_clear mf env s
       \<and> next_regs mf (env\<lparr>pending_dat_w := dat\<rparr>) s = next_regs mf env s
       \<and> (variant s = Pulse \<longrightarrow>
            pending_r (next_regs mf env s) =
              (trigger env (duid s) \<or> (pending_r (regs env (duid s)) \<and> \<not> pending_re env)))
       \<and> (variant s = Process \<longrightarrow>
            pending_r (next_regs mf env s) =
              ((\<not> trigger env (duid s) \<and> old_trigger (regs env (duid s)))
               \<or> (pending_r (regs env (duid s)) \<and> \<not> pending_re env)))
       \<and> (variant s = Level \<longrightarrow> next_regs mf env s = regs env (duid s))
       \<and> (\<not> src_pending env s \<longrightarrow>
            next_regs mf env s =
              sync (variant s) (regs env (duid s)) (trigger env (duid s)) False)"
proof -
  have a: "src_clear mf e s = (pending_re e \<and> src_pending e s)" for e
    by (rule clear_is_re_and_pending [OF fin w names ids s])
  have p: "src_pending (env\<lparr>pending_dat_w := dat\<rparr>) s = src_pending env s"
    by (simp add: src_pending_def)
  have c1: "src_clear mf env s = (pending_re env \<and> src_pending env s)" by (rule a)
  have c2: "src_clear mf (env\<lparr>pending_dat_w := dat\<rparr>) s = src_clear mf env s"
    by (simp add: a p)
  have c3: "next_regs mf (env\<lparr>pending_dat_w := dat\<rparr>) s = next_regs mf env s"
    by (simp add: next_regs_def c2)
  have c4: "variant s = Pulse \<longrightarrow>
            pending_r (next_regs mf env s) =
              (trigger env (duid s) \<or> (pending_r (regs env (duid s)) \<and> \<not> pending_re env))"
    by (auto simp: next_regs_def a src_pending_def Let_def)
  have c5: "variant s = Process \<longrightarrow>
            pending_r (next_regs mf env s) =
              ((\<not> trigger env (duid s) \<and> old_trigger (regs env (duid s)))
               \<or> (pending_r (regs env (duid s)) \<and> \<not> pending_re env))"
    by (auto simp: next_regs_def a src_pending_def Let_def)
  have c6: "variant s = Level \<longrightarrow> next_regs mf env s = regs env (duid s)"
    by (simp add: next_regs_def)
  have c7: "\<not> src_pending env s \<longrightarrow>
            next_regs mf env s =
              sync (variant s) (regs env (duid s)) (trigger env (duid s)) False"
    by (simp add: next_regs_def a)
  from c1 c2 c3 c4 c5 c6 c7 show ?thesis by blast
qed

theorem pending_write_clears_pending_witness:
  "src_clear (projr (do_finalize ex_mgr_a)) ex_env ex_rx = True
   \<and> src_pending ex_env ex_rx = True
   \<and> variant ex_rx = Pulse
   \<and> pending_r (next_regs (projr (do_finalize ex_mgr_a)) ex_env ex_rx) = False
   \<and> src_clear (projr (do_finalize ex_mgr_a)) ex_env ex_tx = False
   \<and> src_pending ex_env ex_tx = False"
proof -
  have fin: "do_finalize ex_mgr_a = Inr (projr (do_finalize ex_mgr_a))"
    by (rule sum.collapse(2) [symmetric]) code_simp
  have w: "wired ex_mgr_a = []" by code_simp
  have ids: "distinct (map duid (sources_u ex_mgr_a))" by code_simp
  have names: "distinct (map name (sources_u ex_mgr_a))" by code_simp
  have rx: "ex_rx \<in> set (sources_u ex_mgr_a)" by code_simp
  have tx: "ex_tx \<in> set (sources_u ex_mgr_a)" by code_simp
  have re: "pending_re ex_env" by (simp add: ex_env_def)
  have v: "variant ex_rx = Pulse" by (simp add: ex_rx_def EventSource_init_def)
  have t: "\<not> trigger ex_env (duid ex_rx)" by (simp add: ex_env_def)
  have p: "src_pending ex_env ex_rx" "\<not> src_pending ex_env ex_tx"
    by (simp_all add: src_pending_def ex_env_def ex_rx_def ex_tx_def EventSource_init_def)
  from pending_write_clears_pending [OF fin w names ids rx, of ex_env]
    pending_write_clears_pending [OF fin w names ids tx, of ex_env] re p v t
  show ?thesis by simp
qed

text \<open>
  C3. Where the property fails: source \<^verbatim>\<open>rx\<close> sits at bit 0 of the pending
  register and is pending; software writes the register with data bit 0 equal to 0; the
  clear input of \<^verbatim>\<open>rx\<close> is asserted all the same.
\<close>

theorem clear_ignores_written_data:
  "bit_of (the (csr_of (projr (do_finalize ex_mgr_a)) ''pending'')) ex_rx = Some 0
   \<and> pending_re ex_env = True
   \<and> pending_dat_w ex_env 0 = False
   \<and> src_clear (projr (do_finalize ex_mgr_a)) ex_env ex_rx = True"
  by code_simp

text \<open>
  C2. Where the property fails: a manager without sources. The annotation
  loop never binds \<^verbatim>\<open>desc\<close>, so building the status register raises
  \<^verbatim>\<open>UnboundLocalError\<close> and the manager is left as it was; the reduction over the empty
  list of interrupt terms would raise as well.
\<close>

theorem finalize_without_sources:
  "sources_u EventManager_init = []
   \<and> do_finalize EventManager_init = Inl (UnboundLocalError, EventManager_init)
   \<and> reduce Or (map PendingAndEnable [0..<0]) = Inl TypeError"
  by code_simp

text \<open>
  C9. Where the property fails: a manager whose only source has no name.
  The three annotation loops fall back to the field name \<^verbatim>\<open>event0\<close>, but the wiring loop
  looks the field up under the name \<^verbatim>\<open>None\<close> and raises \<^verbatim>\<open>TypeError\<close>: the registers
  are stored, no wiring and no interrupt expression are added.
\<close>

theorem finalize_unnamed_source:
  "name ex_anon = None
   \<and> (case do_finalize ex_mgr_anon of
        Inl (e, mf) \<Rightarrow>
          e = TypeError
          \<and> map_option (\<lambda>c. map f_name (c_fields c)) (csr_of mf ''status'') = Some [''event0'']
          \<and> map_option (\<lambda>c. map f_name (c_fields c)) (csr_of mf ''pending'') = Some [''event0'']
          \<and> map_option (\<lambda>c. map f_name (c_fields c)) (csr_of mf ''enable'') = Some [''event0'']
          \<and> wired mf = [] \<and> irq_drv mf = None
      | Inr mf \<Rightarrow> False)"
  by code_simp

text \<open>
  C7, as stated, fails: on a finalized manager \<^verbatim>\<open>do_finalize\<close> runs again without any
  error, and migen's \<^verbatim>\<open>finalize\<close> returns the manager unchanged.
\<close>

theorem refinalize_counterexample:
  "finalized (projr (finalize ex_mgr_a)) = True
   \<and> isl (do_finalize (projr (finalize ex_mgr_a))) = False
   \<and> finalize (projr (finalize ex_mgr_a)) = Inr (projr (finalize ex_mgr_a))"
  by code_simp

lemma csr_of_attrs_other:
  "j \<noteq> k \<Longrightarrow> csr_of (m\<lparr>attrs := AList.update k v (attrs m)\<rparr>) j = csr_of m j"
  by (simp add: csr_of_def update_conv')

text \<open>
  C7, amended. On a finalized manager, assigning an event source to an attribute raises
  \<^verbatim>\<open>FinalizeError\<close>; the submodules, the wiring, the interrupt expression and every
  register held under another attribute name are unchanged. \<^verbatim>\<open>do_finalize\<close> itself has no
  guard: it never raises \<^verbatim>\<open>FinalizeError\<close>, and migen's \<^verbatim>\<open>finalize\<close> does nothing on a
  finalized manager.
\<close>

theorem attach_after_finalize:
  assumes "finalized m"
  shows "(\<exists>mf. setattr m k (Source s) = Inl (FinalizeError, mf)
            \<and> submodules mf = submodules m \<and> wired mf = wired m \<and> irq_drv mf = irq_drv m
            \<and> finalized mf
            \<and> (\<forall>j. j \<noteq> k \<longrightarrow> csr_of mf j = csr_of m j))
       \<and> (\<forall>mf. do_finalize m \<noteq> Inl (FinalizeError, mf))
       \<and> finalize m = Inr m"
proof -
  let ?mf = "m\<lparr>attrs := AList.update k (Source s) (attrs m)\<rparr>"
  have "setattr m k (Source s) = Inl (FinalizeError, ?mf)"
    using assms by (simp add: setattr_def)
  moreover have "\<forall>j. j \<noteq> k \<longrightarrow> csr_of ?mf j = csr_of m j"
    by (simp add: csr_of_attrs_other)
  ultimately have first: "\<exists>mf. setattr m k (Source s) = Inl (FinalizeError, mf)
            \<and> submodules mf = submodules m \<and> wired mf = wired m \<and> irq_drv mf = irq_drv m
            \<and> finalized mf
            \<and> (\<forall>j. j \<noteq> k \<longrightarrow> csr_of mf j = csr_of m j)"
    using assms by (intro exI [of _ ?mf]) simp
  have second: "\<forall>mf. do_finalize m \<noteq> Inl (FinalizeError, mf)"
    using do_finalize_error by blast
  have third: "finalize m = Inr m" using assms by (simp add: finalize_def)
  from first second third show ?thesis by blast
qed

theorem attach_after_finalize_witness:
  "finalized (projr (finalize ex_mgr_a)) = True
   \<and> isl (setattr (projr (finalize ex_mgr_a)) ''late'' (Source ex_anon)) = True
   \<and> fst (projl (setattr (projr (finalize ex_mgr_a)) ''late'' (Source ex_anon))) = FinalizeError
   \<and> finalize (projr (finalize ex_mgr_a)) = Inr (projr (finalize ex_mgr_a))"
proof -
  have fin: "finalized (projr (finalize ex_mgr_a))" by code_simp
  from attach_after_finalize [OF fin, of "''late''" ex_anon] fin
  show ?thesis by auto
qed

text \<open>
  C8, as stated, fails: an open manager accepts the source it already holds under a
  second attribute name, and \<^verbatim>\<open>do_finalize\<close> would then collect that source twice.
\<close>

theorem duplicate_attach_counterexample:
  "finalized (projr (setattr EventManager_init ''a'' (Source ex_rx))) = False
   \<and> sources_u (projr (setattr EventManager_init ''a'' (Source ex_rx))) = [ex_rx]
   \<and> isl (setattr (projr (setattr EventManager_init ''a'' (Source ex_rx))) ''b'' (Source ex_rx)) = False
   \<and> sources_u (projr (setattr (projr (setattr EventManager_init ''a'' (Source ex_rx))) ''b'' (Source ex_rx)))
       = [ex_rx, ex_rx]"
  by code_simp

text \<open>
  C8, amended. On an open manager, assigning an event source to an attribute always
  succeeds, whether or not that source is attached already: the attribute is stored and
  the source is appended to the submodules.
\<close>

theorem attach_open_accepts:
  assumes "\<not> finalized m"
  shows "setattr m k (Source s) =
           Inr (m\<lparr>attrs := AList.update k (Source s) (attrs m),
                  submodules := submodules m @ [s]\<rparr>)"
  using assms by (simp add: setattr_def)

theorem attach_open_accepts_witness:
  "ex_rx \<in> set (submodules (projr (setattr EventManager_init ''a'' (Source ex_rx))))
   \<and> submodules (projr (setattr (projr (setattr EventManager_init ''a'' (Source ex_rx))) ''b'' (Source ex_rx)))
       = [ex_rx, ex_rx]"
proof -
  let ?ma = "projr (setattr EventManager_init ''a'' (Source ex_rx))"
  have op: "\<not> finalized ?ma" by code_simp
  have sm: "submodules ?ma = [ex_rx]" by code_simp
  from attach_open_accepts [OF op, of "''b''" ex_rx] sm
  show ?thesis by simp
qed

end
